theory Spec2Isabelle
  imports Complex_Main
begin

section \<open>Python primitives used by bot.py\<close>

text \<open>
  Strings are \<open>char list\<close>. The model covers ASCII text: \<open>lower\<close>, whitespace and
  decimal digits are the ASCII ones. Every flag literal and field name the program
  compares against is ASCII, and (apart from the Kelvin sign, which lowers to \<open>k\<close>, a
  letter no flag contains) no character outside ASCII lowers to an ASCII letter.
\<close>

datatype py_error =
  IndexError | ValueError | TypeError | AttributeError | KeyError | TelegramError

definition lower_char :: "char \<Rightarrow> char" where
  "lower_char c =
     (let n = (of_char c :: nat) in if 65 \<le> n \<and> n \<le> 90 then char_of (n + 32) else c)"

definition lower :: "string \<Rightarrow> string" where
  "lower s = map lower_char s"

text \<open>\<open>str.isspace\<close> on ASCII: tab, LF, VT, FF, CR, the separators 0x1c-0x1f, space.\<close>

definition isspace :: "char \<Rightarrow> bool" where
  "isspace c = (let n = (of_char c :: nat) in (9 \<le> n \<and> n \<le> 13) \<or> (28 \<le> n \<and> n \<le> 32))"

definition isdigit :: "char \<Rightarrow> bool" where
  "isdigit c = (let n = (of_char c :: nat) in 48 \<le> n \<and> n \<le> 57)"

definition digit_val :: "char \<Rightarrow> nat" where
  "digit_val c = of_char c - 48"

text \<open>\<open>sep.join(xs)\<close>.\<close>

fun join :: "string \<Rightarrow> string list \<Rightarrow> string" where
  "join sep [] = []"
| "join sep [x] = x"
| "join sep (x # y # ys) = x @ sep @ join sep (y # ys)"

text \<open>
  \<open>s.split()\<close> with no separator: the maximal runs of non-whitespace characters.
  The first argument is the word being read.
\<close>

fun split_from :: "string \<Rightarrow> string \<Rightarrow> string list" where
  "split_from w [] = (if w = [] then [] else [w])"
| "split_from w (c # cs) =
     (if isspace c then (if w = [] then split_from [] cs else w # split_from [] cs)
      else split_from (w @ [c]) cs)"

definition split :: "string \<Rightarrow> string list" where
  "split s = split_from [] s"

text \<open>
  The whitespace \<open>int\<close> drops around an ASCII literal: tab, LF, VT, FF, CR and space,
  but not the separators 0x1c-0x1f that \<open>str.isspace\<close> counts.
\<close>

definition int_space :: "char \<Rightarrow> bool" where
  "int_space c = (let n = (of_char c :: nat) in (9 \<le> n \<and> n \<le> 13) \<or> n = 32)"

definition int_strip :: "string \<Rightarrow> string" where
  "int_strip s = rev (dropWhile int_space (rev (dropWhile int_space s)))"

text \<open>The interpreter's default limit on the digits of a decimal literal.\<close>

definition max_str_digits :: nat where
  "max_str_digits = 4300"

text \<open>
  \<open>int(s)\<close> in base 10 on an ASCII string: the whitespace around the literal is
  dropped, then comes an optional sign, then decimal digits in which single underscores
  may separate digits; a literal of more than \<open>max_str_digits\<close> digits is refused.
  \<open>None\<close> is the \<open>ValueError\<close>.
\<close>

fun int_digits :: "nat \<Rightarrow> string \<Rightarrow> nat option" where
  "int_digits acc [] = Some acc"
| "int_digits acc [c] = (if isdigit c then Some (10 * acc + digit_val c) else None)"
| "int_digits acc (c # d # ds) =
     (if isdigit c then int_digits (10 * acc + digit_val c) (d # ds)
      else if c = CHR ''_'' \<and> isdigit d then int_digits (10 * acc + digit_val d) ds
      else None)"

definition int_unsigned :: "string \<Rightarrow> nat option" where
  "int_unsigned s =
     (if length (filter isdigit s) > max_str_digits then None
      else
        (case s of [] \<Rightarrow> None
         | c # cs \<Rightarrow> if isdigit c then int_digits (digit_val c) cs else None))"

definition py_int :: "string \<Rightarrow> int option" where
  "py_int s =
     (case int_strip s of
        [] \<Rightarrow> None
      | c # cs \<Rightarrow>
          if c = CHR ''-'' then map_option (\<lambda>n. - int n) (int_unsigned cs)
          else if c = CHR ''+'' then map_option int (int_unsigned cs)
          else map_option int (int_unsigned (c # cs)))"

text \<open>\<open>sub in s\<close> for strings: \<open>sub\<close> occurs in \<open>s\<close> as a contiguous run.\<close>

fun str_contains :: "string \<Rightarrow> string \<Rightarrow> bool" where
  "str_contains sub [] = (sub = [])"
| "str_contains sub (c # cs) = (take (length sub) (c # cs) = sub \<or> str_contains sub cs)"

text \<open>\<open>xs[i]\<close> and \<open>xs.pop(i)\<close> for an index \<open>i \<ge> 0\<close>; both raise \<open>IndexError\<close> out of range.\<close>

definition py_index :: "'a list \<Rightarrow> nat \<Rightarrow> py_error + 'a" where
  "py_index xs i = (if i < length xs then Inr (xs ! i) else Inl IndexError)"

definition py_pop :: "'a list \<Rightarrow> nat \<Rightarrow> py_error + 'a list" where
  "py_pop xs i = (if i < length xs then Inr (take i xs @ drop (Suc i) xs) else Inl IndexError)"

section \<open>The dimension resolver: ImageBot.get_dimensions\<close>

definition get_dimensions :: "string \<Rightarrow> string \<Rightarrow> int \<times> int" where
  "get_dimensions model_id orient =
     (if lower orient = ''square'' then (1024, 1024)
      else if str_contains ''bfl'' model_id then
        (if lower orient = ''landscape'' then (1392, 752) else (752, 1392))
      else
        (if lower orient = ''landscape'' then (1344, 704) else (704, 1344)))"

section \<open>The argument parser: parse_command_args\<close>

text \<open>The local variables of the function; \<open>idx\<close> is the loop index \<open>i\<close>.\<close>

record parse_state =
  orientation :: string
  num_images :: int
  use_max :: bool
  prompt_args :: "string list"
  idx :: nat

definition clamp_count :: "int \<Rightarrow> int" where
  "clamp_count n = (if n < 1 then 1 else if n > 10 then 10 else n)"

text \<open>
  The body of the \<open>try\<close> of the \<open>-n\<close> branch. \<open>Inr\<close> is the state when the block
  completes, \<open>Inl\<close> the state at the moment an exception is raised (the handler
  catches \<open>ValueError\<close> and \<open>IndexError\<close>, the only ones the block can raise).
\<close>

definition n_try :: "parse_state \<Rightarrow> parse_state + parse_state" where
  "n_try s =
     (case py_index (prompt_args s) (idx s + 1) of
        Inl e \<Rightarrow> Inl s
      | Inr a \<Rightarrow>
          (case py_int a of
             None \<Rightarrow> Inl s
           | Some v \<Rightarrow>
               (let s1 = s\<lparr>num_images := clamp_count v\<rparr> in
                case py_pop (prompt_args s1) (idx s1) of
                  Inl e \<Rightarrow> Inl s1
                | Inr p1 \<Rightarrow>
                    (let s2 = s1\<lparr>prompt_args := p1\<rparr> in
                     case py_pop (prompt_args s2) (idx s2) of
                       Inl e \<Rightarrow> Inl s2
                     | Inr p2 \<Rightarrow> Inr (s2\<lparr>prompt_args := p2\<rparr>)))))"

lemma py_pop_length: "py_pop xs i = Inr ys \<Longrightarrow> Suc (length ys) = length xs"
  by (auto simp: py_pop_def split: if_splits)

lemma n_try_Inr:
  "n_try s = Inr s' \<Longrightarrow> idx s' = idx s \<and> length (prompt_args s') < length (prompt_args s)"
  by (auto simp: n_try_def Let_def split: sum.splits option.splits dest!: py_pop_length)

lemma n_try_Inl:
  "n_try s = Inl s' \<Longrightarrow> idx s' = idx s \<and> length (prompt_args s') \<le> length (prompt_args s)"
  by (auto simp: n_try_def Let_def split: sum.splits option.splits dest!: py_pop_length)

text \<open>The \<open>while\<close> loop. A flag branch pops at \<open>i\<close> and leaves \<open>i\<close> alone.\<close>

function parse_loop :: "parse_state \<Rightarrow> py_error + parse_state" where
  "parse_loop s =
     (if idx s < length (prompt_args s) then
        (case py_index (prompt_args s) (idx s) of
           Inl e \<Rightarrow> Inl e
         | Inr tok \<Rightarrow>
             (let arg = lower tok in
              if arg \<in> set [''--landscape'', ''-l''] then
                (case py_pop (prompt_args s) (idx s) of
                   Inl e \<Rightarrow> Inl e
                 | Inr p \<Rightarrow> parse_loop (s\<lparr>orientation := ''landscape'', prompt_args := p\<rparr>))
              else if arg \<in> set [''--portrait'', ''-p''] then
                (case py_pop (prompt_args s) (idx s) of
                   Inl e \<Rightarrow> Inl e
                 | Inr p \<Rightarrow> parse_loop (s\<lparr>orientation := ''portrait'', prompt_args := p\<rparr>))
              else if arg \<in> set [''--square'', ''-s''] then
                (case py_pop (prompt_args s) (idx s) of
                   Inl e \<Rightarrow> Inl e
                 | Inr p \<Rightarrow> parse_loop (s\<lparr>orientation := ''square'', prompt_args := p\<rparr>))
              else if arg \<in> set [''--max'', ''-max''] then
                (case py_pop (prompt_args s) (idx s) of
                   Inl e \<Rightarrow> Inl e
                 | Inr p \<Rightarrow> parse_loop (s\<lparr>use_max := True, prompt_args := p\<rparr>))
              else if arg = ''-n'' \<and> idx s + 1 < length (prompt_args s) then
                (case n_try s of
                   Inr s' \<Rightarrow> parse_loop s'
                 | Inl s' \<Rightarrow> parse_loop (s'\<lparr>idx := idx s' + 1\<rparr>))
              else parse_loop (s\<lparr>idx := idx s + 1\<rparr>)))
      else Inr s)"
  by pat_completeness auto
termination
proof (relation "measure (\<lambda>s. length (prompt_args s) - idx s)")
  show "wf (measure (\<lambda>s. length (prompt_args s) - idx s))" by simp
qed (auto dest!: py_pop_length n_try_Inr n_try_Inl)

declare parse_loop.simps [simp del]

definition parse_command_args :: "string list \<Rightarrow> py_error + (string \<times> int \<times> bool \<times> string)" where
  "parse_command_args args =
     (case parse_loop \<lparr>orientation = ''portrait'', num_images = 1, use_max = False,
                       prompt_args = args, idx = 0\<rparr> of
        Inl e \<Rightarrow> Inl e
      | Inr s \<Rightarrow> Inr (orientation s, num_images s, use_max s, join '' '' (prompt_args s)))"

text \<open>
  The orientation a token selects, if any (the first three branches of the loop), and
  whether it is the high-tier flag (the fourth).
\<close>

definition orientation_flag :: "string \<Rightarrow> string option" where
  "orientation_flag t =
     (let arg = lower t in
      if arg \<in> set [''--landscape'', ''-l''] then Some ''landscape''
      else if arg \<in> set [''--portrait'', ''-p''] then Some ''portrait''
      else if arg \<in> set [''--square'', ''-s''] then Some ''square''
      else None)"

definition max_flag :: "string \<Rightarrow> bool" where
  "max_flag t = (lower t \<in> set [''--max'', ''-max''])"

text \<open>
  The loop seen from the token at \<open>i\<close> onwards: the tokens before \<open>i\<close> are final, and
  \<open>scan\<close> returns the final variables and the tokens kept from \<open>i\<close> on. It is proved
  equal to \<open>parse_loop\<close> below.
\<close>

fun scan :: "string \<Rightarrow> int \<Rightarrow> bool \<Rightarrow> string list \<Rightarrow> string \<times> int \<times> bool \<times> string list" where
  "scan ori n m [] = (ori, n, m, [])"
| "scan ori n m (t # ts) =
     (let arg = lower t in
      if arg \<in> set [''--landscape'', ''-l''] then scan ''landscape'' n m ts
      else if arg \<in> set [''--portrait'', ''-p''] then scan ''portrait'' n m ts
      else if arg \<in> set [''--square'', ''-s''] then scan ''square'' n m ts
      else if arg \<in> set [''--max'', ''-max''] then scan ori n True ts
      else if arg = ''-n'' \<and> ts \<noteq> [] \<and> py_int (hd ts) \<noteq> None then
        scan ori (clamp_count (the (py_int (hd ts)))) m (tl ts)
      else (case scan ori n m ts of (ori', n', m', r) \<Rightarrow> (ori', n', m', t # r)))"

definition loop_result :: "parse_state \<Rightarrow> parse_state" where
  "loop_result s =
     (case scan (orientation s) (num_images s) (use_max s) (drop (idx s) (prompt_args s)) of
        (ori, n, m, r) \<Rightarrow>
          \<lparr>orientation = ori, num_images = n, use_max = m,
           prompt_args = take (idx s) (prompt_args s) @ r, idx = idx s + length r\<rparr>)"


text \<open>The characters a string that \<open>int\<close> accepts can contain.\<close>

definition int_char :: "char \<Rightarrow> bool" where
  "int_char c = (int_space c \<or> isdigit c \<or> c = CHR ''_'' \<or> c = CHR ''-'' \<or> c = CHR ''+'')"

text \<open>
  The prompt tokens as the specification words them: every orientation flag and
  \<open>--max\<close>/\<open>-max\<close> is removed, a \<open>-n\<close> directly before a valid integer is removed
  with it, and every other token, a \<open>-n\<close> before anything else included, stays.
\<close>

fun strip_flags :: "string list \<Rightarrow> string list" where
  "strip_flags [] = []"
| "strip_flags [t] = (if orientation_flag t \<noteq> None \<or> max_flag t then [] else [t])"
| "strip_flags (t # a # ts) =
     (if orientation_flag t \<noteq> None \<or> max_flag t then strip_flags (a # ts)
      else if lower t = ''-n'' \<and> py_int a \<noteq> None then strip_flags ts
      else t # strip_flags (a # ts))"



section \<open>Base64\<close>

text \<open>\<open>base64.b64encode\<close> on bytes (a \<open>char\<close> is a byte), three bytes to four characters.\<close>

definition b64_alphabet :: string where
  "b64_alphabet = ''ABCDEFGHIJKLMNOPQRSTUVWXYZabcdefghijklmnopqrstuvwxyz0123456789+/''"

definition b64_char :: "nat \<Rightarrow> char" where
  "b64_char n = b64_alphabet ! (n mod 64)"

fun b64encode :: "string \<Rightarrow> string" where
  "b64encode [] = []"
| "b64encode [a] =
     (let x = (of_char a :: nat)
      in [b64_char (x div 4), b64_char ((x mod 4) * 16), CHR ''='', CHR ''=''])"
| "b64encode [a, b] =
     (let x = (of_char a :: nat); y = (of_char b :: nat)
      in [b64_char (x div 4), b64_char ((x mod 4) * 16 + y div 16),
          b64_char ((y mod 16) * 4), CHR ''=''])"
| "b64encode (a # b # c # rest) =
     (let x = (of_char a :: nat); y = (of_char b :: nat); z = (of_char c :: nat)
      in [b64_char (x div 4), b64_char ((x mod 4) * 16 + y div 16),
          b64_char ((y mod 16) * 4 + z div 64), b64_char (z mod 64)] @ b64encode rest)"

section \<open>JSON values and the Python operations on them\<close>

text \<open>
  What \<open>response.json()\<close> returns. \<open>JObj\<close> lists the members of the object as the
  body has them; a key that occurs twice has its last value, as in \<open>json.loads\<close>.
  (\<open>NaN\<close> and the infinities, which \<open>json.loads\<close> accepts, behave here as any
  non-zero float.)
\<close>

datatype json =
    JNull | JBool bool | JInt int | JFloat real | JStr string
  | JList "json list" | JObj "(string \<times> json) list"

definition dict_get :: "(string \<times> json) list \<Rightarrow> string \<Rightarrow> json option" where
  "dict_get kvs k = map_of (rev kvs) k"

text \<open>\<open>k in v\<close> for a string \<open>k\<close>: key of a dict, element of a list, substring of a string.\<close>

fun py_in :: "string \<Rightarrow> json \<Rightarrow> py_error + bool" where
  "py_in k (JObj kvs) = Inr (k \<in> set (map fst kvs))"
| "py_in k (JList xs) = Inr (JStr k \<in> set xs)"
| "py_in k (JStr s) = Inr (str_contains k s)"
| "py_in k v = Inl TypeError"

text \<open>\<open>v.get(k, dflt)\<close>: only a dict has \<open>get\<close>.\<close>

fun py_get :: "json \<Rightarrow> string \<Rightarrow> json \<Rightarrow> py_error + json" where
  "py_get (JObj kvs) k dflt = Inr (case dict_get kvs k of None \<Rightarrow> dflt | Some v \<Rightarrow> v)"
| "py_get v k dflt = Inl AttributeError"

text \<open>\<open>for item in v\<close>: the elements of a list, the keys of a dict, the characters of a string.\<close>

fun py_iter :: "json \<Rightarrow> py_error + json list" where
  "py_iter (JList xs) = Inr xs"
| "py_iter (JObj kvs) = Inr (map JStr (remdups (map fst kvs)))"
| "py_iter (JStr s) = Inr (map (\<lambda>c. JStr [c]) s)"
| "py_iter v = Inl TypeError"

text \<open>\<open>if v:\<close>.\<close>

fun truthy :: "json \<Rightarrow> bool" where
  "truthy JNull = False"
| "truthy (JBool b) = b"
| "truthy (JInt n) = (n \<noteq> 0)"
| "truthy (JFloat x) = (x \<noteq> 0)"
| "truthy (JStr s) = (s \<noteq> [])"
| "truthy (JList xs) = (xs \<noteq> [])"
| "truthy (JObj kvs) = (kvs \<noteq> [])"

section \<open>The generation client: ImageBot.generate_image\<close>

text \<open>
  The network as one call of \<open>generate_image\<close> finds it. \<open>post\<close> is the HTTP POST of
  the payload: \<open>None\<close> when the call raises, else the response, whose \<open>body\<close> is
  \<open>None\<close> when \<open>response.json()\<close> raises. \<open>fetch\<close> is an HTTP GET: \<open>None\<close> when it
  raises, else the status and the content. \<open>uuid4\<close> is the string \<open>str(uuid.uuid4())\<close>
  returns in this call.
\<close>

record http_response =
  status :: int
  body :: "json option"

record gen_env =
  api_key :: "string option"
  uuid4 :: string
  post :: "json \<Rightarrow> http_response option"
  fetch :: "string \<Rightarrow> (int \<times> string) option"

text \<open>The payload; \<open>reference_image_base64 and "bfl" in model_id\<close> decides the extra field.\<close>

definition build_payload ::
  "string option \<Rightarrow> string \<Rightarrow> string \<Rightarrow> string \<Rightarrow> string \<Rightarrow> string option \<Rightarrow> json" where
  "build_payload key task_uuid prompt mid orient reference_image_base64 =
     (case get_dimensions mid orient of (width, height) \<Rightarrow>
        (let auth = [(''taskType'', JStr ''authentication''),
                     (''apiKey'', case key of None \<Rightarrow> JNull | Some k \<Rightarrow> JStr k)];
             inference = [(''taskType'', JStr ''imageInference''),
                          (''taskUUID'', JStr task_uuid),
                          (''positivePrompt'', JStr prompt),
                          (''width'', JInt width),
                          (''height'', JInt height),
                          (''model'', JStr mid),
                          (''outputFormat'', JStr ''JPEG''),
                          (''includeCost'', JBool True),
                          (''outputType'', JList [JStr ''URL'']),
                          (''numberResults'', JInt 1)]
         in case reference_image_base64 of
              None \<Rightarrow> JList [JObj auth, JObj inference]
            | Some r \<Rightarrow>
                if r \<noteq> [] \<and> str_contains ''bfl'' mid
                then JList [JObj auth, JObj (inference @ [(''referenceImages'', JList [JStr r])])]
                else JList [JObj auth, JObj inference]))"

text \<open>
  \<open>download_image_as_base64\<close>. \<open>session.get\<close> raises on a locator that is not a string;
  the function catches every exception and returns \<open>None\<close>.
\<close>

definition download_image_as_base64 ::
  "(string \<Rightarrow> (int \<times> string) option) \<Rightarrow> json \<Rightarrow> string option" where
  "download_image_as_base64 get image_url =
     (case image_url of
        JStr u \<Rightarrow>
          (case get u of
             None \<Rightarrow> None
           | Some (st, content) \<Rightarrow> if st = 200 then Some (b64encode content) else None)
      | _ \<Rightarrow> None)"

text \<open>The first loop, over a list response: \<open>True\<close> when it returns \<open>None\<close> at an item.\<close>

fun any_error_item :: "json list \<Rightarrow> py_error + bool" where
  "any_error_item [] = Inr False"
| "any_error_item (item # rest) =
     (case py_in ''error'' item of
        Inl e \<Rightarrow> Inl e
      | Inr b \<Rightarrow> if b then Inr True else any_error_item rest)"

text \<open>
  The condition of the second loop's body: the \<open>imageURL\<close> of an item whose task type
  and correlation token match, when that value is truthy.
\<close>

definition item_url :: "string \<Rightarrow> json \<Rightarrow> py_error + json option" where
  "item_url task_uuid item =
     (case py_get item ''taskType'' JNull of
        Inl e \<Rightarrow> Inl e
      | Inr tt \<Rightarrow>
          if tt \<noteq> JStr ''imageInference'' then Inr None
          else
            (case py_get item ''taskUUID'' JNull of
               Inl e \<Rightarrow> Inl e
             | Inr tu \<Rightarrow>
                 if tu \<noteq> JStr task_uuid then Inr None
                 else
                   (case py_in ''imageURL'' item of
                      Inl e \<Rightarrow> Inl e
                    | Inr b \<Rightarrow>
                        if \<not> b then Inr None
                        else
                          (case py_get item ''imageURL'' JNull of
                             Inl e \<Rightarrow> Inl e
                           | Inr image_url \<Rightarrow>
                               if truthy image_url then Inr (Some image_url) else Inr None))))"

text \<open>The second loop: the first such item decides the result.\<close>

fun find_image ::
  "(string \<Rightarrow> (int \<times> string) option) \<Rightarrow> string \<Rightarrow> json list \<Rightarrow> py_error + string option" where
  "find_image get task_uuid [] = Inr None"
| "find_image get task_uuid (item # rest) =
     (case item_url task_uuid item of
        Inl e \<Rightarrow> Inl e
      | Inr None \<Rightarrow> find_image get task_uuid rest
      | Inr (Some image_url) \<Rightarrow> Inr (download_image_as_base64 get image_url))"

text \<open>Everything after \<open>result = await response.json()\<close>; \<open>Inl\<close> is an exception raised.\<close>

definition process_response ::
  "(string \<Rightarrow> (int \<times> string) option) \<Rightarrow> string \<Rightarrow> json \<Rightarrow> py_error + string option" where
  "process_response get task_uuid result =
     (case (case result of JList items \<Rightarrow> any_error_item items | _ \<Rightarrow> py_in ''error'' result) of
        Inl e \<Rightarrow> Inl e
      | Inr has_error \<Rightarrow>
          if has_error then Inr None
          else
            (case (case result of JList items \<Rightarrow> Inr result
                   | _ \<Rightarrow> py_get result ''data'' (JList [])) of
               Inl e \<Rightarrow> Inl e
             | Inr items_to_check \<Rightarrow>
                 (case py_iter items_to_check of
                    Inl e \<Rightarrow> Inl e
                  | Inr items \<Rightarrow> find_image get task_uuid items)))"

text \<open>The whole function: every exception is caught and gives \<open>None\<close>.\<close>

definition generate_image ::
  "gen_env \<Rightarrow> string \<Rightarrow> string \<Rightarrow> string \<Rightarrow> string option \<Rightarrow> string option" where
  "generate_image env prompt mid orient reference_image_base64 =
     (let task_uuid = uuid4 env;
          payload = build_payload (api_key env) task_uuid prompt mid orient reference_image_base64
      in case post env payload of
           None \<Rightarrow> None
         | Some response \<Rightarrow>
             if status response \<noteq> 200 then None
             else
               (case body response of
                  None \<Rightarrow> None
                | Some result \<Rightarrow>
                    (case process_response (fetch env) task_uuid result of
                       Inl e \<Rightarrow> None
                     | Inr r \<Rightarrow> r)))"


section \<open>The model registry\<close>

record model =
  model_ident :: string
  model_name :: string
  supports_reference :: bool

definition MODELS :: "(string \<times> model) list" where
  "MODELS =
     [(''flux'', \<lparr>model_ident = ''runware:101@1'', model_name = ''FLUX Dev'', supports_reference = False\<rparr>),
      (''hidream'', \<lparr>model_ident = ''runware:97@2'', model_name = ''HiDream Pro'', supports_reference = False\<rparr>),
      (''kontext'', \<lparr>model_ident = ''bfl:3@1'', model_name = ''Kontext Pro'', supports_reference = True\<rparr>),
      (''kontext-max'', \<lparr>model_ident = ''bfl:4@1'', model_name = ''Kontext Max'', supports_reference = True\<rparr>),
      (''fast'', \<lparr>model_ident = ''runware:100@1'', model_name = ''FLUX Schnell'', supports_reference = False\<rparr>)]"

section \<open>The orchestrator: generate_image_direct\<close>

text \<open>
  The texts the handler sends: the two usage hints (for \<open>/model_key\<close>), the progress
  message (count, orientation, model name, prompt), the failure notice and the notice
  of the exception handler.
\<close>

datatype message =
    PromptHint string
  | OptionsHint string
  | Generating int string string string
  | Failed
  | ErrorOccurred

text \<open>
  What the handler does, in order: calls of the chat transport, calls of the generation
  client (with the iteration index, from 0), and an exception that leaves the handler.
  \<open>ReplyPhoto\<close> carries the base64 text whose decoding is sent, and the "Image i of N"
  of the caption when there is one.
\<close>

datatype event =
    ReplyText message
  | GenerateImage nat string string string
  | ReplyPhoto string "(int \<times> int) option"
  | EditText message
  | Delete
  | Raise py_error

text \<open>
  \<open>network i\<close> is the network as the call of iteration \<open>i\<close> finds it;
  \<open>raises e\<close> tells whether the transport call \<open>e\<close> raises.
\<close>

record bot_env =
  network :: "nat \<Rightarrow> gen_env"
  raises :: "event \<Rightarrow> bool"

text \<open>The \<open>except\<close> branch of the handler.\<close>

definition on_exception :: "bot_env \<Rightarrow> event list" where
  "on_exception env =
     (if raises env (EditText ErrorOccurred) then [EditText ErrorOccurred, Raise TelegramError]
      else [EditText ErrorOccurred])"

text \<open>The \<open>else\<close> branch of the loop body: edit the progress message, return.\<close>

definition failure_notice :: "bot_env \<Rightarrow> event list" where
  "failure_notice env =
     (if raises env (EditText Failed) then EditText Failed # on_exception env
      else [EditText Failed])"

text \<open>
  \<open>for i in range(num_images)\<close> from iteration \<open>i\<close> with \<open>k\<close> iterations left, then
  \<open>generating_msg.delete()\<close>. (\<open>b64decode\<close> cannot raise: the client returns what
  \<open>b64encode\<close> produced.)
\<close>

fun generate_loop ::
  "bot_env \<Rightarrow> string \<Rightarrow> model \<Rightarrow> string \<Rightarrow> int \<Rightarrow> nat \<Rightarrow> nat \<Rightarrow> event list" where
  "generate_loop env prompt m orient n i 0 =
     (if raises env Delete then Delete # on_exception env else [Delete])"
| "generate_loop env prompt m orient n i (Suc k) =
     GenerateImage i prompt (model_ident m) orient #
     (case generate_image (network env i) prompt (model_ident m) orient None of
        None \<Rightarrow> failure_notice env
      | Some image_base64 \<Rightarrow>
          if image_base64 \<noteq> [] then
            (let photo = ReplyPhoto image_base64 (if n > 1 then Some (int i + 1, n) else None)
             in if raises env photo then photo # on_exception env
                else photo # generate_loop env prompt m orient n (Suc i) k)
          else failure_notice env)"

text \<open>A \<open>reply_text\<close> outside the \<open>try\<close>: its exception leaves the handler.\<close>

definition reply_text :: "bot_env \<Rightarrow> message \<Rightarrow> event list" where
  "reply_text env msg =
     (if raises env (ReplyText msg) then [ReplyText msg, Raise TelegramError] else [ReplyText msg])"

definition generate_image_direct :: "bot_env \<Rightarrow> string list option \<Rightarrow> string \<Rightarrow> event list" where
  "generate_image_direct env args model_key =
     (case args of
        None \<Rightarrow> reply_text env (PromptHint model_key)
      | Some ts \<Rightarrow>
          if ts = [] then reply_text env (PromptHint model_key)
          else
            (case parse_command_args ts of
               Inl e \<Rightarrow> [Raise e]
             | Inr (orient, n, mx, prompt) \<Rightarrow>
                 if prompt = [] then reply_text env (OptionsHint model_key)
                 else
                   (case map_of MODELS model_key of
                      None \<Rightarrow> [Raise KeyError]
                    | Some m \<Rightarrow>
                        (let generating = ReplyText (Generating n orient (model_name m) prompt)
                         in if raises env generating then [generating, Raise TelegramError]
                            else generating # generate_loop env prompt m orient n 0 (nat n)))))"

text \<open>Reading a trace: the photos sent, and the iterations that called the client.\<close>

fun is_photo :: "event \<Rightarrow> bool" where
  "is_photo (ReplyPhoto b c) = True"
| "is_photo e = False"

fun attempts :: "event list \<Rightarrow> nat list" where
  "attempts [] = []"
| "attempts (GenerateImage i p mid ori # es) = i # attempts es"
| "attempts (e # es) = attempts es"

text \<open>The client succeeds at iteration \<open>i\<close>: it returns a non-empty string.\<close>

definition delivered :: "bot_env \<Rightarrow> string \<Rightarrow> model \<Rightarrow> string \<Rightarrow> nat \<Rightarrow> bool" where
  "delivered env prompt m orient i =
     (case generate_image (network env i) prompt (model_ident m) orient None of
        None \<Rightarrow> False | Some b \<Rightarrow> b \<noteq> [])"

text \<open>The two events of an iteration that succeeds.\<close>

definition iteration :: "bot_env \<Rightarrow> string \<Rightarrow> model \<Rightarrow> string \<Rightarrow> int \<Rightarrow> nat \<Rightarrow> event list" where
  "iteration env prompt m orient n i =
     [GenerateImage i prompt (model_ident m) orient,
      ReplyPhoto (the (generate_image (network env i) prompt (model_ident m) orient None))
        (if n > 1 then Some (int i + 1, n) else None)]"

section \<open>Example environments\<close>

text \<open>A response with a matching result, and one whose only result has another token.\<close>

definition matching_env :: gen_env where
  "matching_env =
     \<lparr>api_key = Some ''key'', uuid4 = ''u-1'',
      post = (\<lambda>p. Some \<lparr>status = 200,
                body = Some (JObj [(''data'', JList [JObj [(''taskType'', JStr ''imageInference''),
                                          (''taskUUID'', JStr ''u-1''),
                                          (''imageURL'', JStr ''http://x/y.jpg'')]])])\<rparr>),
      fetch = (\<lambda>u. Some (200, ''img''))\<rparr>"

definition other_token_env :: gen_env where
  "other_token_env =
     \<lparr>api_key = Some ''key'', uuid4 = ''u-1'',
      post = (\<lambda>p. Some \<lparr>status = 200,
                body = Some (JList [JObj [(''taskType'', JStr ''imageInference''),
                                          (''taskUUID'', JStr ''u-2''),
                                          (''imageURL'', JStr ''http://x/y.jpg'')]])\<rparr>),
      fetch = (\<lambda>u. Some (200, ''img''))\<rparr>"

text \<open>A server error; a chat in which the second generation fails.\<close>

definition bad_net :: gen_env where
  "bad_net =
     \<lparr>api_key = Some ''key'', uuid4 = ''u-2'',
      post = (\<lambda>p. Some \<lparr>status = 500, body = None\<rparr>),
      fetch = (\<lambda>u. None)\<rparr>"

definition second_fails :: bot_env where
  "second_fails = \<lparr>network = (\<lambda>i. if i = 1 then bad_net else matching_env), raises = (\<lambda>e. False)\<rparr>"

section \<open>The parser loop and its closed form\<close>

lemma n_try_eq:
  assumes "idx s + 1 < length (prompt_args s)"
  shows "n_try s =
    (case py_int (prompt_args s ! (idx s + 1)) of
       None \<Rightarrow> Inl s
     | Some v \<Rightarrow> Inr (s\<lparr>num_images := clamp_count v,
                      prompt_args := take (idx s) (prompt_args s) @ drop (idx s + 2) (prompt_args s)\<rparr>))"
  using assms
  by (auto simp: n_try_def py_index_def py_pop_def Let_def  split: option.splits)

lemma scan_keep:
  assumes "lower t \<notin> set [''--landscape'', ''-l'']" "lower t \<notin> set [''--portrait'', ''-p'']"
    "lower t \<notin> set [''--square'', ''-s'']" "lower t \<notin> set [''--max'', ''-max'']"
    "\<not> (lower t = ''-n'' \<and> ts \<noteq> [] \<and> py_int (hd ts) \<noteq> None)"
  shows "scan ori n m (t # ts) = (case scan ori n m ts of (ori', n', m', r) \<Rightarrow> (ori', n', m', t # r))"
  using assms by auto

lemma scan_count:
  assumes "lower t = ''-n''" "py_int a = Some v"
  shows "scan ori n m (t # a # ts) = scan ori (clamp_count v) m ts"
  using assms by simp

lemma loop_result_done:
  "\<not> idx s < length (prompt_args s) \<Longrightarrow> idx s \<le> length (prompt_args s) \<Longrightarrow> loop_result s = s"
  by (simp add: loop_result_def)

lemma drop_pop: "i < length xs \<Longrightarrow> drop i (take i xs @ drop (Suc i) xs) = drop (Suc i) xs"
  by simp

lemma take_pop: "i < length xs \<Longrightarrow> take i (take i xs @ drop (Suc i) xs) = take i xs"
  by simp

lemma parse_loop_scan:
  "idx s \<le> length (prompt_args s) \<Longrightarrow> parse_loop s = Inr (loop_result s)"
proof (induction s rule: parse_loop.induct)
  case (1 s)
  let ?xs = "prompt_args s" and ?i = "idx s"
  show ?case
  proof (cases "?i < length ?xs")
    case False
    with "1.prems" show ?thesis
      by (subst parse_loop.simps) (simp add: loop_result_done)
  next
    case True
    then have dr: "drop ?i ?xs = (?xs ! ?i) # drop (Suc ?i) ?xs"
      by (simp add: Cons_nth_drop_Suc)
    have ix: "py_index ?xs ?i = Inr (?xs ! ?i)"
      using True by (simp add: py_index_def)
    have pp: "py_pop ?xs ?i = Inr (take ?i ?xs @ drop (Suc ?i) ?xs)"
      using True by (simp add: py_pop_def)
    let ?arg = "lower (?xs ! ?i)"
    consider (land) "?arg \<in> set [''--landscape'', ''-l'']"
      | (port) "?arg \<notin> set [''--landscape'', ''-l'']" "?arg \<in> set [''--portrait'', ''-p'']"
      | (squa) "?arg \<notin> set [''--landscape'', ''-l'']" "?arg \<notin> set [''--portrait'', ''-p'']"
               "?arg \<in> set [''--square'', ''-s'']"
      | (maxf) "?arg \<notin> set [''--landscape'', ''-l'']" "?arg \<notin> set [''--portrait'', ''-p'']"
               "?arg \<notin> set [''--square'', ''-s'']" "?arg \<in> set [''--max'', ''-max'']"
      | (nflag) "?arg \<notin> set [''--landscape'', ''-l'']" "?arg \<notin> set [''--portrait'', ''-p'']"
               "?arg \<notin> set [''--square'', ''-s'']" "?arg \<notin> set [''--max'', ''-max'']"
               "?arg = ''-n'' \<and> ?i + 1 < length ?xs"
      | (other) "?arg \<notin> set [''--landscape'', ''-l'']" "?arg \<notin> set [''--portrait'', ''-p'']"
               "?arg \<notin> set [''--square'', ''-s'']" "?arg \<notin> set [''--max'', ''-max'']"
               "\<not> (?arg = ''-n'' \<and> ?i + 1 < length ?xs)"
      by blast
    then show ?thesis
    proof cases
      case land
      let ?s' = "s\<lparr>orientation := ''landscape'', prompt_args := take ?i ?xs @ drop (Suc ?i) ?xs\<rparr>"
      have "parse_loop ?s' = Inr (loop_result ?s')"
        using "1.IH"(1)[OF True ix refl land pp] True by simp
      moreover have "loop_result ?s' = loop_result s"
        using True land by (simp add: loop_result_def dr)
      ultimately show ?thesis
        using True land ix pp by (subst parse_loop.simps) simp
    next
      case port
      let ?s' = "s\<lparr>orientation := ''portrait'', prompt_args := take ?i ?xs @ drop (Suc ?i) ?xs\<rparr>"
      have "parse_loop ?s' = Inr (loop_result ?s')"
        using "1.IH"(2)[OF True ix refl port pp] True by simp
      moreover have "loop_result ?s' = loop_result s"
        using True port by (simp add: loop_result_def dr)
      ultimately show ?thesis
        using True port ix pp by (subst parse_loop.simps) simp
    next
      case squa
      let ?s' = "s\<lparr>orientation := ''square'', prompt_args := take ?i ?xs @ drop (Suc ?i) ?xs\<rparr>"
      have "parse_loop ?s' = Inr (loop_result ?s')"
        using "1.IH"(3)[OF True ix refl squa pp] True by simp
      moreover have "loop_result ?s' = loop_result s"
        using True squa by (simp add: loop_result_def dr)
      ultimately show ?thesis
        using True squa ix pp by (subst parse_loop.simps) simp
    next
      case maxf
      let ?s' = "s\<lparr>use_max := True, prompt_args := take ?i ?xs @ drop (Suc ?i) ?xs\<rparr>"
      have "parse_loop ?s' = Inr (loop_result ?s')"
        using "1.IH"(4)[OF True ix refl maxf pp] True by simp
      moreover have "loop_result ?s' = loop_result s"
        using True maxf by (simp add: loop_result_def dr)
      ultimately show ?thesis
        using True maxf ix pp by (subst parse_loop.simps) simp
    next
      case nflag
      then have lt: "?i + 1 < length ?xs" by simp
      have dr2: "drop (Suc ?i) ?xs = (?xs ! (?i + 1)) # drop (?i + 2) ?xs"
        using lt by (simp add: Cons_nth_drop_Suc)
      show ?thesis
      proof (cases "py_int (?xs ! (?i + 1))")
        case None
        then have nt: "n_try s = Inl s"
          using lt by (simp add: n_try_eq)
        let ?s' = "s\<lparr>idx := ?i + 1\<rparr>"
        have "parse_loop ?s' = Inr (loop_result ?s')"
          using "1.IH"(5)[OF True ix refl nflag nt] lt by simp
        moreover have "scan (orientation s) (num_images s) (use_max s) (drop ?i ?xs) =
            (case scan (orientation s) (num_images s) (use_max s) (drop (Suc ?i) ?xs) of
               (ori', n', m', r) \<Rightarrow> (ori', n', m', ?xs ! ?i # r))"
          unfolding dr using nflag(1-4) None dr2 by (intro scan_keep) simp_all
        then have "loop_result ?s' = loop_result s"
          using True
          by (simp add: loop_result_def take_Suc_conv_app_nth split: prod.splits)
        ultimately show ?thesis
          using True nflag ix nt by (subst parse_loop.simps) simp
      next
        case (Some v)
        let ?s' = "s\<lparr>num_images := clamp_count v,
                      prompt_args := take ?i ?xs @ drop (?i + 2) ?xs\<rparr>"
        have nt: "n_try s = Inr ?s'"
          using lt Some by (simp add: n_try_eq)
        have "parse_loop ?s' = Inr (loop_result ?s')"
          using "1.IH"(6)[OF True ix refl nflag nt] lt by simp
        moreover have "scan (orientation s) (num_images s) (use_max s) (drop ?i ?xs) =
            scan (orientation s) (clamp_count v) (use_max s) (drop (?i + 2) ?xs)"
          unfolding dr dr2 using nflag Some by (intro scan_count) simp_all
        then have "loop_result ?s' = loop_result s"
          using True lt by (simp add: loop_result_def)
        ultimately show ?thesis
          using True nflag ix nt by (subst parse_loop.simps) simp
      qed
    next
      case other
      let ?s' = "s\<lparr>idx := ?i + 1\<rparr>"
      have "parse_loop ?s' = Inr (loop_result ?s')"
        using "1.IH"(7)[OF True ix refl other] True by simp
      moreover have "scan (orientation s) (num_images s) (use_max s) (drop ?i ?xs) =
          (case scan (orientation s) (num_images s) (use_max s) (drop (Suc ?i) ?xs) of
             (ori', n', m', r) \<Rightarrow> (ori', n', m', ?xs ! ?i # r))"
        unfolding dr using other by (intro scan_keep) auto
      then have "loop_result ?s' = loop_result s"
        using True
        by (simp add: loop_result_def take_Suc_conv_app_nth split: prod.splits)
      ultimately show ?thesis
        using True other ix by (subst parse_loop.simps) auto
    qed
  qed
qed

lemma parse_command_args_scan:
  "parse_command_args ts =
     (case scan ''portrait'' 1 False ts of (ori, n, m, r) \<Rightarrow> Inr (ori, n, m, join '' '' r))"
  by (simp add: parse_command_args_def parse_loop_scan loop_result_def split: prod.splits)

lemma scan_orient:
  "orientation_flag t = Some ori' \<Longrightarrow> scan ori n m (t # ts) = scan ori' n m ts"
  by (auto simp: orientation_flag_def Let_def split: if_splits)

lemma scan_max:
  "orientation_flag t = None \<Longrightarrow> max_flag t \<Longrightarrow> scan ori n m (t # ts) = scan ori n True ts"
  by (auto simp: orientation_flag_def max_flag_def Let_def split: if_splits)

lemma scan_count':
  "orientation_flag t = None \<Longrightarrow> \<not> max_flag t \<Longrightarrow> lower t = ''-n'' \<Longrightarrow> py_int a = Some v \<Longrightarrow>
   scan ori n m (t # a # ts) = scan ori (clamp_count v) m ts"
  by (rule scan_count)

lemma scan_keep':
  assumes "orientation_flag t = None" "\<not> max_flag t"
    "lower t = ''-n'' \<Longrightarrow> ts = [] \<or> py_int (hd ts) = None"
  shows "scan ori n m (t # ts) = (case scan ori n m ts of (ori', n', m', r) \<Rightarrow> (ori', n', m', t # r))"
proof (rule scan_keep)
  show "\<not> (lower t = ''-n'' \<and> ts \<noteq> [] \<and> py_int (hd ts) \<noteq> None)"
    using assms(3) by auto
qed (use assms(1,2) in \<open>auto simp: orientation_flag_def max_flag_def Let_def split: if_splits\<close>)

lemma scan_induct [case_names Nil Orient Max Count Keep]:
  assumes nil: "\<And>ori n m. P ori n m []"
    and orient: "\<And>ori n m t ts ori'. orientation_flag t = Some ori' \<Longrightarrow>
        scan ori n m (t # ts) = scan ori' n m ts \<Longrightarrow> P ori' n m ts \<Longrightarrow> P ori n m (t # ts)"
    and maxf: "\<And>ori n m t ts. orientation_flag t = None \<Longrightarrow> max_flag t \<Longrightarrow>
        scan ori n m (t # ts) = scan ori n True ts \<Longrightarrow> P ori n True ts \<Longrightarrow> P ori n m (t # ts)"
    and count: "\<And>ori n m t a ts v. orientation_flag t = None \<Longrightarrow> \<not> max_flag t \<Longrightarrow>
        lower t = ''-n'' \<Longrightarrow> py_int a = Some v \<Longrightarrow>
        scan ori n m (t # a # ts) = scan ori (clamp_count v) m ts \<Longrightarrow>
        P ori (clamp_count v) m ts \<Longrightarrow> P ori n m (t # a # ts)"
    and keep: "\<And>ori n m t ts. orientation_flag t = None \<Longrightarrow> \<not> max_flag t \<Longrightarrow>
        (lower t = ''-n'' \<Longrightarrow> ts = [] \<or> py_int (hd ts) = None) \<Longrightarrow>
        scan ori n m (t # ts) = (case scan ori n m ts of (ori', n', m', r) \<Rightarrow> (ori', n', m', t # r)) \<Longrightarrow>
        P ori n m ts \<Longrightarrow> P ori n m (t # ts)"
  shows "P ori n m ts"
proof (induction ts arbitrary: ori n m rule: length_induct)
  case (1 xs)
  show ?case
  proof (cases xs)
    case Nil
    then show ?thesis by (simp add: nil)
  next
    case (Cons t ts)
    have ih: "\<And>ys ori n m. length ys < length xs \<Longrightarrow> P ori n m ys"
      using "1.IH" by blast
    show ?thesis
    proof (cases "orientation_flag t")
      case (Some ori')
      then show ?thesis
        unfolding Cons using scan_orient ih Cons by (intro orient) auto
    next
      case None
      show ?thesis
      proof (cases "max_flag t")
        case True
        with None show ?thesis
          unfolding Cons using scan_max ih Cons by (intro maxf) auto
      next
        case False
        show ?thesis
        proof (cases "lower t = ''-n'' \<and> ts \<noteq> [] \<and> py_int (hd ts) \<noteq> None")
          case True
          then obtain a rest v where ts: "ts = a # rest" and v: "py_int a = Some v"
            by (cases ts) auto
          show ?thesis
            unfolding Cons ts using None False True v scan_count ih Cons ts
            by (intro count) auto
        next
          case nv: False
          show ?thesis
            unfolding Cons using None False nv scan_keep' ih Cons
            by (intro keep) auto
        qed
      qed
    qed
  qed
qed

declare scan.simps(2) [simp del]




section \<open>The dimension resolver's table\<close>

lemma lower_literals:
  "lower ''square'' = ''square''" "lower ''landscape'' = ''landscape''"
  "lower ''portrait'' = ''portrait''" "lower ''Square'' = ''square''"
  by code_simp+

text \<open>
  Claim C7. Whatever the model id, a square orientation gives 1024 x 1024. Landscape
  gives width > height and portrait height > width, the landscape pair is the portrait
  pair transposed, and for an orientation other than square a model id containing
  \<open>bfl\<close> gets a different pair from a model id that does not. The orientation is
  compared in lower case, as the code does.
\<close>

theorem get_dimensions_table:
  "(lower orient = ''square'' \<longrightarrow> get_dimensions model_id orient = (1024, 1024)) \<and>
   (lower orient = ''landscape'' \<longrightarrow>
      fst (get_dimensions model_id orient) > snd (get_dimensions model_id orient)) \<and>
   (lower orient = ''portrait'' \<longrightarrow>
      snd (get_dimensions model_id orient) > fst (get_dimensions model_id orient)) \<and>
   (lower o1 = ''landscape'' \<and> lower o2 = ''portrait'' \<longrightarrow>
      get_dimensions model_id o1 = prod.swap (get_dimensions model_id o2)) \<and>
   (lower orient \<noteq> ''square'' \<and> str_contains ''bfl'' m1 \<and> \<not> str_contains ''bfl'' m2 \<longrightarrow>
      get_dimensions m1 orient \<noteq> get_dimensions m2 orient)"
  by (auto simp: get_dimensions_def)

text \<open>The table at the registry's model ids.\<close>

theorem get_dimensions_table_witness:
  "get_dimensions ''bfl:3@1'' ''Square'' = (1024, 1024) \<and>
   get_dimensions ''runware:101@1'' ''square'' = (1024, 1024) \<and>
   get_dimensions ''bfl:3@1'' ''landscape'' = (1392, 752) \<and>
   get_dimensions ''bfl:3@1'' ''portrait'' = (752, 1392) \<and>
   get_dimensions ''runware:101@1'' ''landscape'' = (1344, 704) \<and>
   get_dimensions ''runware:101@1'' ''portrait'' = (704, 1344) \<and>
   get_dimensions ''bfl:3@1'' ''landscape'' = prod.swap (get_dimensions ''bfl:3@1'' ''portrait'') \<and>
   get_dimensions ''bfl:3@1'' ''portrait'' \<noteq> get_dimensions ''runware:101@1'' ''portrait''"
proof -
  have bfl: "str_contains ''bfl'' ''bfl:3@1''" "\<not> str_contains ''bfl'' ''runware:101@1''"
    by code_simp+
  have vals: "get_dimensions ''bfl:3@1'' ''Square'' = (1024, 1024)"
    "get_dimensions ''runware:101@1'' ''square'' = (1024, 1024)"
    "get_dimensions ''bfl:3@1'' ''landscape'' = (1392, 752)"
    "get_dimensions ''bfl:3@1'' ''portrait'' = (752, 1392)"
    "get_dimensions ''runware:101@1'' ''landscape'' = (1344, 704)"
    "get_dimensions ''runware:101@1'' ''portrait'' = (704, 1344)"
    by code_simp+
  have ne: "lower ''portrait'' \<noteq> ''square''"
    by code_simp
  from get_dimensions_table[of "''portrait''" "''bfl:3@1''" "''landscape''" "''portrait''"
      "''bfl:3@1''" "''runware:101@1''"] bfl ne lower_literals
  have "get_dimensions ''bfl:3@1'' ''landscape'' = prod.swap (get_dimensions ''bfl:3@1'' ''portrait'')"
    "get_dimensions ''bfl:3@1'' ''portrait'' \<noteq> get_dimensions ''runware:101@1'' ''portrait''"
    by simp_all
  with vals show ?thesis by simp
qed

section \<open>The image count\<close>



section \<open>Integers are not flags\<close>

lemma int_digits_chars: "int_digits acc s = Some v \<Longrightarrow> c \<in> set s \<Longrightarrow> int_char c"
  by (induction acc s arbitrary: v rule: int_digits.induct)
     (auto simp: int_char_def split: if_splits)

lemma int_unsigned_chars: "int_unsigned s = Some v \<Longrightarrow> c \<in> set s \<Longrightarrow> int_char c"
  by (auto simp: int_unsigned_def int_char_def split: list.splits if_splits dest: int_digits_chars)

lemma dropWhile_chars: "c \<in> set s \<Longrightarrow> P c \<or> c \<in> set (dropWhile P s)"
  by (induction s) auto

lemma int_strip_chars: "c \<in> set s \<Longrightarrow> int_space c \<or> c \<in> set (int_strip s)"
  using dropWhile_chars[of c s int_space]
    dropWhile_chars[of c "rev (dropWhile int_space s)" int_space]
  by (auto simp: int_strip_def)

lemma py_int_chars:
  assumes "py_int s = Some v" "c \<in> set s"
  shows "int_char c"
proof (cases "int_space c")
  case True
  then show ?thesis by (simp add: int_char_def)
next
  case False
  with assms(2) have "c \<in> set (int_strip s)" using int_strip_chars by blast
  with assms(1) show ?thesis
    by (auto simp: py_int_def int_char_def split: list.splits if_splits dest: int_unsigned_chars)
qed

lemma lower_char_int_char: "int_char c \<Longrightarrow> lower_char c = c"
  by (auto simp: int_char_def lower_char_def int_space_def isdigit_def Let_def)

lemma py_int_lower: "py_int s = Some v \<Longrightarrow> lower s = s"
  unfolding lower_def by (rule map_idI) (auto dest: py_int_chars lower_char_int_char)

lemma py_int_flag_literals:
  "py_int ''--landscape'' = None" "py_int ''-l'' = None"
  "py_int ''--portrait'' = None" "py_int ''-p'' = None"
  "py_int ''--square'' = None" "py_int ''-s'' = None"
  "py_int ''--max'' = None" "py_int ''-max'' = None" "py_int ''-n'' = None"
  by code_simp+

lemma py_int_not_literal:
  assumes "py_int a = Some v"
  shows "a \<notin> set [''--landscape'', ''-l'', ''--portrait'', ''-p'', ''--square'', ''-s'',
                     ''--max'', ''-max'', ''-n'']"
proof
  assume "a \<in> set [''--landscape'', ''-l'', ''--portrait'', ''-p'', ''--square'', ''-s'',
                     ''--max'', ''-max'', ''-n'']"
  then have "py_int a = None"
    unfolding set_simps insert_iff empty_iff using py_int_flag_literals by blast
  with assms show False by simp
qed

lemma py_int_not_flag:
  assumes "py_int a = Some v"
  shows "orientation_flag a = None \<and> \<not> max_flag a \<and> lower a \<noteq> ''-n''"
proof -
  have l: "lower a = a" using assms by (rule py_int_lower)
  have "a \<notin> set [''--landscape'', ''-l'', ''--portrait'', ''-p'', ''--square'', ''-s'',
                     ''--max'', ''-max'', ''-n'']"
    using assms by (rule py_int_not_literal)
  then show ?thesis
    unfolding orientation_flag_def max_flag_def Let_def l by simp
qed

lemma scan_tokens: "snd (snd (snd (scan ori n m ts))) = strip_flags ts"
proof (induction ori n m ts rule: scan_induct)
  case (Orient ori n m t ts ori')
  then show ?case by (cases ts) auto
next
  case (Max ori n m t ts)
  then show ?case by (cases ts) auto
next
  case (Keep ori n m t ts)
  then show ?case by (cases ts) (auto split: prod.splits)
qed simp_all



lemma scan_orientation_kept:
  "\<forall>t\<in>set ts. orientation_flag t = None \<Longrightarrow> fst (scan ori n m ts) = ori"
  by (induction ori n m ts rule: scan_induct) (auto split: prod.splits)


lemma scan_orientation_range:
  "ori \<in> {''portrait'', ''landscape'', ''square''} \<Longrightarrow>
   fst (scan ori n m ts) \<in> {''portrait'', ''landscape'', ''square''}"
proof (induction ori n m ts rule: scan_induct)
  case (Orient ori n m t ts ori')
  then have "ori' \<in> {''portrait'', ''landscape'', ''square''}"
    by (auto simp: orientation_flag_def Let_def split: if_splits)
  with Orient show ?case by simp
next
  case (Keep ori n m t ts)
  then show ?case by (auto split: prod.splits)
qed simp_all

lemma scan_last_wins:
  "orientation_flag f = Some ori' \<Longrightarrow> \<forall>t\<in>set after. orientation_flag t = None \<Longrightarrow>
   fst (scan ori n m (before @ f # after)) = ori'"
proof (induction before arbitrary: ori n m rule: length_induct)
  case (1 before)
  have ih: "\<And>ys ori n m. length ys < length before \<Longrightarrow> fst (scan ori n m (ys @ f # after)) = ori'"
    using 1 by blast
  show ?case
  proof (cases before)
    case Nil
    then show ?thesis
      using "1.prems" by (simp add: scan_orient scan_orientation_kept)
  next
    case (Cons t ts)
    show ?thesis
    proof (cases "orientation_flag t")
      case (Some x)
      then show ?thesis using ih[of ts] Cons by (simp add: scan_orient)
    next
      case None
      show ?thesis
      proof (cases "max_flag t")
        case True
        then show ?thesis using None ih[of ts] Cons by (simp add: scan_max)
      next
        case False
        show ?thesis
        proof (cases "lower t = ''-n'' \<and> py_int (hd (ts @ f # after)) \<noteq> None")
          case True
          then obtain v where v: "py_int (hd (ts @ f # after)) = Some v" by auto
          have "ts \<noteq> []"
          proof
            assume "ts = []"
            with v have "py_int f = Some v" by simp
            then show False using py_int_not_flag "1.prems"(1) by fastforce
          qed
          then obtain a rest where ts: "ts = a # rest" by (cases ts) auto
          with v have "py_int a = Some v" by simp
          then have "scan ori n m (t # a # rest @ f # after) =
                     scan ori (clamp_count v) m (rest @ f # after)"
            using None False True by (intro scan_count') simp_all
          then show ?thesis using ih[of rest] Cons ts by simp
        next
          case nv: False
          have "scan ori n m (t # ts @ f # after) =
                (case scan ori n m (ts @ f # after) of (ori', n', m', r) \<Rightarrow> (ori', n', m', t # r))"
            using None False nv by (intro scan_keep') auto
          then have "fst (scan ori n m (t # ts @ f # after)) = fst (scan ori n m (ts @ f # after))"
            by (simp split: prod.splits)
          then show ?thesis using ih[of ts ori n m] Cons by simp
        qed
      qed
    qed
  qed
qed

lemma parse_result:
  "parse_command_args ts =
     Inr (fst (scan ''portrait'' 1 False ts), fst (snd (scan ''portrait'' 1 False ts)),
          fst (snd (snd (scan ''portrait'' 1 False ts))), join '' '' (strip_flags ts))"
  using scan_tokens[of "''portrait''" 1 False ts]
  by (auto simp: parse_command_args_scan split: prod.splits)

lemma orientation_flag_lower:
  "lower t = lower u \<Longrightarrow> orientation_flag t = orientation_flag u"
  by (simp add: orientation_flag_def)

section \<open>Orientation flags\<close>

text \<open>
  Claim C5. The parser always returns one of portrait, landscape, square. With no
  orientation flag among the tokens it returns portrait; otherwise it returns the
  orientation of the last orientation flag, whatever stands before it. Flags are
  recognized through \<open>lower\<close>, so two tokens that differ only in case select the same
  orientation.
\<close>

theorem parse_command_args_orientation:
  "(\<exists>ori n m p. parse_command_args ts = Inr (ori, n, m, p) \<and>
      ori \<in> {''portrait'', ''landscape'', ''square''}) \<and>
   ((\<forall>t\<in>set ts. orientation_flag t = None) \<longrightarrow>
      (\<exists>n m p. parse_command_args ts = Inr (''portrait'', n, m, p))) \<and>
   (orientation_flag f = Some ori' \<and> (\<forall>t\<in>set after. orientation_flag t = None) \<longrightarrow>
      (\<exists>n m p. parse_command_args (before @ f # after) = Inr (ori', n, m, p))) \<and>
   (lower t = lower u \<longrightarrow> orientation_flag t = orientation_flag u)"
proof (intro conjI impI)
  show "\<exists>ori n m p. parse_command_args ts = Inr (ori, n, m, p) \<and>
      ori \<in> {''portrait'', ''landscape'', ''square''}"
    using scan_orientation_range[of "''portrait''" 1 False ts] by (simp add: parse_result)
next
  assume "\<forall>t\<in>set ts. orientation_flag t = None"
  then have "fst (scan ''portrait'' 1 False ts) = ''portrait''"
    by (rule scan_orientation_kept)
  then show "\<exists>n m p. parse_command_args ts = Inr (''portrait'', n, m, p)"
    by (simp add: parse_result)
next
  assume "orientation_flag f = Some ori' \<and> (\<forall>t\<in>set after. orientation_flag t = None)"
  then have "fst (scan ''portrait'' 1 False (before @ f # after)) = ori'"
    by (intro scan_last_wins) simp_all
  then show "\<exists>n m p. parse_command_args (before @ f # after) = Inr (ori', n, m, p)"
    by (simp add: parse_result)
next
  assume "lower t = lower u"
  then show "orientation_flag t = orientation_flag u" by (rule orientation_flag_lower)
qed

text \<open>\<open>--landscape --portrait\<close> gives portrait; flags in upper case are recognized.\<close>

theorem parse_command_args_orientation_witness:
  "parse_command_args [''--landscape'', ''--portrait''] = Inr (''portrait'', 1, False, '''') \<and>
   parse_command_args [''-S'', ''a'', ''--LandScape'', ''fox''] = Inr (''landscape'', 1, False, ''a fox'') \<and>
   parse_command_args [''a'', ''fox''] = Inr (''portrait'', 1, False, ''a fox'')"
proof -
  have ev: "orientation_flag ''--portrait'' = Some ''portrait''"
    by code_simp
  have vals: "parse_command_args [''--landscape'', ''--portrait''] = Inr (''portrait'', 1, False, '''')"
    "parse_command_args [''-S'', ''a'', ''--LandScape'', ''fox''] = Inr (''landscape'', 1, False, ''a fox'')"
    "parse_command_args [''a'', ''fox''] = Inr (''portrait'', 1, False, ''a fox'')"
    by code_simp+
  have h: "orientation_flag ''--portrait'' = Some ''portrait'' \<and>
           (\<forall>t\<in>set []. orientation_flag t = None)"
    using ev by simp
  have "\<exists>n m p. parse_command_args ([''--landscape''] @ ''--portrait'' # []) =
          Inr (''portrait'', n, m, p)"
    by (rule parse_command_args_orientation[THEN conjunct2, THEN conjunct2, THEN conjunct1,
          THEN mp, OF h])
  with vals show ?thesis by simp
qed

section \<open>The prompt\<close>




section \<open>A second pass over the prompt\<close>








section \<open>The generation client's response handling\<close>

lemma dict_get_present: "k \<in> set (map fst kvs) \<Longrightarrow> \<exists>v. dict_get kvs k = Some v"
proof -
  assume "k \<in> set (map fst kvs)"
  then have "k \<in> fst ` set (rev kvs)" by simp
  then have "map_of (rev kvs) k \<noteq> None" by (simp only: map_of_eq_None_iff not_not)
  then show ?thesis by (auto simp: dict_get_def)
qed

lemma item_url_Some:
  assumes "item_url u item = Inr (Some image_url)"
  shows "\<exists>kvs. item = JObj kvs \<and>
           dict_get kvs ''taskType'' = Some (JStr ''imageInference'') \<and>
           dict_get kvs ''taskUUID'' = Some (JStr u) \<and>
           dict_get kvs ''imageURL'' = Some image_url \<and> truthy image_url"
proof (cases item)
  case (JObj kvs)
  with assms show ?thesis
    by (auto simp: item_url_def split: if_splits option.splits dest: dict_get_present)
qed (use assms in \<open>simp_all add: item_url_def\<close>)

lemma item_url_not_object:
  "\<forall>kvs. item \<noteq> JObj kvs \<Longrightarrow> item_url u item = Inl AttributeError"
  by (cases item) (simp_all add: item_url_def)

lemma download_Some:
  assumes "download_image_as_base64 get v = Some img"
  shows "\<exists>url content. v = JStr url \<and> get url = Some (200, content) \<and> img = b64encode content"
  using assms
  by (cases v) (auto simp: download_image_as_base64_def split: option.splits if_splits)

lemma find_image_Some:
  "find_image get u items = Inr (Some img) \<Longrightarrow>
   \<exists>item image_url. item \<in> set items \<and> item_url u item = Inr (Some image_url) \<and>
      download_image_as_base64 get image_url = Some img"
proof (induction items)
  case Nil
  then show ?case by simp
next
  case (Cons item rest)
  then show ?case
    by (cases "item_url u item") (auto split: option.splits)
qed

lemma find_image_strings:
  "find_image get u (map JStr ks) \<noteq> Inr (Some img)"
  by (cases ks) (simp_all add: item_url_def)

lemma find_image_chars:
  "find_image get u (map (\<lambda>c. JStr [c]) s) \<noteq> Inr (Some img)"
  by (cases s) (simp_all add: item_url_def)

lemma process_response_Some:
  assumes "process_response get u result = Inr (Some img)"
  shows "\<exists>items. (result = JList items \<or>
            (\<exists>top. result = JObj top \<and> dict_get top ''data'' = Some (JList items))) \<and>
          find_image get u items = Inr (Some img)"
proof (cases result)
  case (JList items)
  with assms show ?thesis
    by (auto simp: process_response_def split: sum.splits if_splits)
next
  case (JObj top)
  show ?thesis
  proof (cases "dict_get top ''data''")
    case None
    with assms JObj show ?thesis
      by (auto simp: process_response_def split: sum.splits if_splits)
  next
    case (Some v)
    with assms JObj show ?thesis
      using find_image_strings find_image_chars
      by (cases v) (auto simp: process_response_def split: sum.splits if_splits)
  qed
qed (use assms in \<open>auto simp: process_response_def split: sum.splits if_splits\<close>)

lemma truthy_JStr: "truthy v \<Longrightarrow> v = JStr s \<Longrightarrow> s \<noteq> []"
  by auto

text \<open>
  Claim C8. When \<open>generate_image\<close> returns an image, the response had status 200 and
  its list of results (the response itself, or the \<open>data\<close> of the response object)
  holds an object whose \<open>taskType\<close> is \<open>imageInference\<close>, whose \<open>taskUUID\<close> is the token
  of this call and whose \<open>imageURL\<close> is a non-empty string, from which the image was
  downloaded. So a status-200 response none of whose results carries the token of
  this call gives \<open>None\<close>.
\<close>

theorem generate_image_success:
  "(generate_image env prompt mid orient ref = Some img \<longrightarrow>
      (\<exists>response result items kvs url content.
         post env (build_payload (api_key env) (uuid4 env) prompt mid orient ref) = Some response \<and>
         status response = 200 \<and> body response = Some result \<and>
         (result = JList items \<or>
            (\<exists>top. result = JObj top \<and> dict_get top ''data'' = Some (JList items))) \<and>
         JObj kvs \<in> set items \<and>
         dict_get kvs ''taskType'' = Some (JStr ''imageInference'') \<and>
         dict_get kvs ''taskUUID'' = Some (JStr (uuid4 env)) \<and>
         dict_get kvs ''imageURL'' = Some (JStr url) \<and> url \<noteq> [] \<and>
         fetch env url = Some (200, content) \<and> img = b64encode content)) \<and>
   (post env (build_payload (api_key env) (uuid4 env) prompt mid orient ref) = Some response \<and>
    status response = 200 \<and> body response = Some result \<and>
    (result = JList items \<or> (\<exists>top. result = JObj top \<and> dict_get top ''data'' = Some (JList items))) \<and>
    (\<forall>kvs. JObj kvs \<in> set items \<longrightarrow> dict_get kvs ''taskUUID'' \<noteq> Some (JStr (uuid4 env))) \<longrightarrow>
      generate_image env prompt mid orient ref = None)"
proof -
  let ?payload = "build_payload (api_key env) (uuid4 env) prompt mid orient ref"
  have main: "\<exists>response result items kvs url content.
         post env ?payload = Some response \<and>
         status response = 200 \<and> body response = Some result \<and>
         (result = JList items \<or>
            (\<exists>top. result = JObj top \<and> dict_get top ''data'' = Some (JList items))) \<and>
         JObj kvs \<in> set items \<and>
         dict_get kvs ''taskType'' = Some (JStr ''imageInference'') \<and>
         dict_get kvs ''taskUUID'' = Some (JStr (uuid4 env)) \<and>
         dict_get kvs ''imageURL'' = Some (JStr url) \<and> url \<noteq> [] \<and>
         fetch env url = Some (200, content) \<and> img = b64encode content"
    if g: "generate_image env prompt mid orient ref = Some img" for img
  proof -
    from g obtain response result where r: "post env ?payload = Some response"
      "status response = 200" "body response = Some result"
      and pr: "process_response (fetch env) (uuid4 env) result = Inr (Some img)"
      by (auto simp: generate_image_def Let_def split: option.splits if_splits sum.splits)
    from process_response_Some[OF pr] obtain items where
      shape: "result = JList items \<or>
            (\<exists>top. result = JObj top \<and> dict_get top ''data'' = Some (JList items))"
      and fi: "find_image (fetch env) (uuid4 env) items = Inr (Some img)" by blast
    from find_image_Some[OF fi] obtain item image_url where
      it: "item \<in> set items" "item_url (uuid4 env) item = Inr (Some image_url)"
      and dl: "download_image_as_base64 (fetch env) image_url = Some img" by blast
    from item_url_Some[OF it(2)] obtain kvs where k: "item = JObj kvs"
      "dict_get kvs ''taskType'' = Some (JStr ''imageInference'')"
      "dict_get kvs ''taskUUID'' = Some (JStr (uuid4 env))"
      "dict_get kvs ''imageURL'' = Some image_url" "truthy image_url" by blast
    from download_Some[OF dl] obtain url content where d: "image_url = JStr url"
      "fetch env url = Some (200, content)" "img = b64encode content" by blast
    have "url \<noteq> []" using k(5) d(1) by simp
    with r shape it(1) k d show ?thesis by blast
  qed
  have second: "generate_image env prompt mid orient ref = None"
    if h: "post env ?payload = Some response \<and>
    status response = 200 \<and> body response = Some result \<and>
    (result = JList items \<or> (\<exists>top. result = JObj top \<and> dict_get top ''data'' = Some (JList items))) \<and>
    (\<forall>kvs. JObj kvs \<in> set items \<longrightarrow> dict_get kvs ''taskUUID'' \<noteq> Some (JStr (uuid4 env)))"
  proof (rule ccontr)
    assume "generate_image env prompt mid orient ref \<noteq> None"
    then obtain img where "generate_image env prompt mid orient ref = Some img" by auto
    from main[OF this] obtain items' kvs where
      s: "result = JList items' \<or> (\<exists>top. result = JObj top \<and> dict_get top ''data'' = Some (JList items'))"
      and m: "JObj kvs \<in> set items'" "dict_get kvs ''taskUUID'' = Some (JStr (uuid4 env))"
      using h by auto
    from s h have "items' = items" by auto
    with m h show False by blast
  qed
  from main second show ?thesis by blast
qed

text \<open>A matching result is downloaded; a result with another token is not.\<close>

theorem generate_image_success_witness:
  "generate_image matching_env ''a fox'' ''runware:101@1'' ''portrait'' None = Some ''aW1n'' \<and>
   generate_image other_token_env ''a fox'' ''runware:101@1'' ''portrait'' None = None"
proof -
  let ?items = "[JObj [(''taskType'', JStr ''imageInference''), (''taskUUID'', JStr ''u-2''),
                       (''imageURL'', JStr ''http://x/y.jpg'')]]"
  let ?resp = "\<lparr>status = 200, body = Some (JList ?items)\<rparr>"
  have ok: "generate_image matching_env ''a fox'' ''runware:101@1'' ''portrait'' None = Some ''aW1n''"
    by code_simp
  have h: "post other_token_env (build_payload (api_key other_token_env) (uuid4 other_token_env)
              ''a fox'' ''runware:101@1'' ''portrait'' None) = Some ?resp \<and>
     status ?resp = 200 \<and> body ?resp = Some (JList ?items) \<and>
     (JList ?items = JList ?items \<or>
        (\<exists>top. JList ?items = JObj top \<and> dict_get top ''data'' = Some (JList ?items))) \<and>
     (\<forall>kvs. JObj kvs \<in> set ?items \<longrightarrow>
        dict_get kvs ''taskUUID'' \<noteq> Some (JStr (uuid4 other_token_env)))"
    by (simp add: other_token_env_def dict_get_def)
  have "generate_image other_token_env ''a fox'' ''runware:101@1'' ''portrait'' None = None"
    by (rule generate_image_success[THEN conjunct2, THEN mp, OF h])
  with ok show ?thesis by simp
qed

section \<open>Errors in the response\<close>

text \<open>
  An \<open>error\<close> key of the response object, or of an object in a response list, gives
  \<open>None\<close>: the two places the code checks.
\<close>

lemma any_error_item_True:
  "JObj kvs \<in> set items \<Longrightarrow> ''error'' \<in> set (map fst kvs) \<Longrightarrow>
   any_error_item items = Inr True \<or> (\<exists>e. any_error_item items = Inl e)"
proof (induction items)
  case Nil
  then show ?case by simp
next
  case (Cons item rest)
  then show ?case
    by (cases "py_in ''error'' item") (force simp: image_iff)+
qed

lemma generate_image_error_fails:
  assumes "post env (build_payload (api_key env) (uuid4 env) prompt mid orient ref) = Some response"
    and "body response = Some result"
    and "(\<exists>top. result = JObj top \<and> ''error'' \<in> set (map fst top)) \<or>
         (\<exists>items kvs. result = JList items \<and> JObj kvs \<in> set items \<and> ''error'' \<in> set (map fst kvs))"
  shows "generate_image env prompt mid orient ref = None"
proof -
  have "process_response (fetch env) (uuid4 env) result = Inr None \<or>
        (\<exists>e. process_response (fetch env) (uuid4 env) result = Inl e)"
    using assms(3)
  proof (elim disjE exE conjE)
    fix top assume "result = JObj top" "''error'' \<in> set (map fst top)"
    then show ?thesis by (simp add: process_response_def)
  next
    fix items kvs
    assume "result = JList items" "JObj kvs \<in> set items" "''error'' \<in> set (map fst kvs)"
    then show ?thesis
      using any_error_item_True[of kvs items] by (auto simp: process_response_def)
  qed
  then show ?thesis
    using assms(1,2) by (auto simp: generate_image_def Let_def)
qed

text \<open>
  Claim C1 at the third place it names: an \<open>error\<close> key of an element of the \<open>data\<close>
  list of a response object. The code does not look there; when the same element
  matches the call and has an \<open>imageURL\<close>, the image is downloaded and returned.
\<close>

theorem generate_image_data_error_delivers:
  "generate_image
     \<lparr>api_key = Some ''key'', uuid4 = ''u-1'',
      post = (\<lambda>p. Some \<lparr>status = 200,
                body = Some (JObj [(''data'', JList [JObj [(''taskType'', JStr ''imageInference''),
                                          (''taskUUID'', JStr ''u-1''),
                                          (''imageURL'', JStr ''http://x/y.jpg''),
                                          (''error'', JStr ''boom'')]])])\<rparr>),
      fetch = (\<lambda>u. Some (200, ''img''))\<rparr>
     ''a fox'' ''runware:101@1'' ''portrait'' None = Some ''aW1n''"
  by code_simp

section \<open>The reference image in the payload\<close>







section \<open>The orchestrator's loop\<close>

lemma loop_step:
  assumes "\<forall>e. \<not> raises env e" "delivered env prompt m orient i"
  shows "generate_loop env prompt m orient n i (Suc k) =
         iteration env prompt m orient n i @ generate_loop env prompt m orient n (Suc i) k"
  using assms by (auto simp: delivered_def iteration_def Let_def split: option.splits)

lemma loop_step_fail:
  assumes "\<forall>e. \<not> raises env e" "\<not> delivered env prompt m orient i"
  shows "generate_loop env prompt m orient n i (Suc k) =
         [GenerateImage i prompt (model_ident m) orient, EditText Failed]"
  using assms by (auto simp: delivered_def failure_notice_def split: option.splits)

lemma upt_head: "[i..<i + Suc r] = i # [Suc i..<Suc i + r]"
  by (simp add: upt_rec)

lemma generate_loop_all:
  assumes "\<forall>e. \<not> raises env e"
  shows "(\<forall>j. i \<le> j \<and> j < i + r \<longrightarrow> delivered env prompt m orient j) \<Longrightarrow>
     generate_loop env prompt m orient n i r =
       concat (map (iteration env prompt m orient n) [i..<i + r]) @ [Delete]"
proof (induction r arbitrary: i)
  case 0
  then show ?case using assms by simp
next
  case (Suc r)
  have d: "delivered env prompt m orient i" using Suc.prems by simp
  have ih: "generate_loop env prompt m orient n (Suc i) r =
       concat (map (iteration env prompt m orient n) [Suc i..<Suc i + r]) @ [Delete]"
    using Suc.prems by (intro Suc.IH) simp
  have "generate_loop env prompt m orient n i (Suc r) =
        iteration env prompt m orient n i @ generate_loop env prompt m orient n (Suc i) r"
    using assms d by (rule loop_step)
  also have "\<dots> = concat (map (iteration env prompt m orient n) (i # [Suc i..<Suc i + r])) @ [Delete]"
    unfolding ih by simp
  finally show ?case unfolding upt_head .
qed

lemma generate_loop_fail:
  assumes "\<forall>e. \<not> raises env e"
  shows "(\<forall>j. i \<le> j \<and> j < i + d \<longrightarrow> delivered env prompt m orient j) \<Longrightarrow>
     \<not> delivered env prompt m orient (i + d) \<Longrightarrow> d < r \<Longrightarrow>
     generate_loop env prompt m orient n i r =
       concat (map (iteration env prompt m orient n) [i..<i + d]) @
       [GenerateImage (i + d) prompt (model_ident m) orient, EditText Failed]"
proof (induction d arbitrary: i r)
  case 0
  then obtain r' where "r = Suc r'" by (cases r) auto
  with 0 loop_step_fail[OF assms, of prompt m orient i n r'] show ?case by simp
next
  case (Suc d)
  then obtain r' where r: "r = Suc r'" "d < r'" by (cases r) auto
  have dl: "delivered env prompt m orient i" using Suc.prems by simp
  have ih: "generate_loop env prompt m orient n (Suc i) r' =
       concat (map (iteration env prompt m orient n) [Suc i..<Suc i + d]) @
       [GenerateImage (Suc i + d) prompt (model_ident m) orient, EditText Failed]"
    using Suc.prems r by (intro Suc.IH) simp_all
  have "generate_loop env prompt m orient n i (Suc r') =
        iteration env prompt m orient n i @ generate_loop env prompt m orient n (Suc i) r'"
    using assms dl by (rule loop_step)
  also have "\<dots> = concat (map (iteration env prompt m orient n) (i # [Suc i..<Suc i + d])) @
       [GenerateImage (Suc i + d) prompt (model_ident m) orient, EditText Failed]"
    unfolding ih by simp
  finally show ?case unfolding upt_head r by simp
qed

lemma photos_iterations:
  "length (filter is_photo (concat (map (iteration env prompt m orient n) [i..<j]) @ es)) =
   (j - i) + length (filter is_photo es)"
  by (induction j) (auto simp: iteration_def)

lemma attempts_append: "attempts (xs @ ys) = attempts xs @ attempts ys"
  by (induction xs rule: attempts.induct) simp_all

lemma attempts_iterations:
  "attempts (concat (map (iteration env prompt m orient n) [i..<j])) = [i..<j]"
  by (induction j) (simp_all add: iteration_def attempts_append)

lemma delete_iterations:
  "Delete \<notin> set (concat (map (iteration env prompt m orient n) xs))"
  by (induction xs) (simp_all add: iteration_def)

text \<open>
  Claim C2, with the transport taken as reliable (no call of it raises), arguments that
  parse to a non-empty prompt and a count \<open>n\<close>, and a model of the registry. Iterations
  are counted from 0 here, so the claim's iteration \<open>k\<close> is \<open>k - 1\<close> below. If the
  client succeeds at the iterations before \<open>k\<close> and fails at \<open>k\<close>, the trace is the
  progress message, one client call and one photo for each iteration before \<open>k\<close>, the
  client call of iteration \<open>k\<close> and the edit to the failure notice: \<open>k\<close> photos, no
  later client call, no deletion. If the client succeeds at all \<open>n\<close> iterations, the
  trace is the progress message, \<open>n\<close> calls each followed by its photo, and the
  deletion of the progress message.
\<close>

theorem generate_image_direct_loop:
  assumes reliable: "\<forall>e. \<not> raises env e"
    and args: "ts \<noteq> []" "parse_command_args ts = Inr (orient, n, mx, prompt)" "prompt \<noteq> []"
    and reg: "map_of MODELS key = Some m"
  shows
   "(let trace = generate_image_direct env (Some ts) key;
         generating = ReplyText (Generating n orient (model_name m) prompt)
     in (k < nat n \<and> (\<forall>j<k. delivered env prompt m orient j) \<and>
           \<not> delivered env prompt m orient k \<longrightarrow>
           trace = generating # concat (map (iteration env prompt m orient n) [0..<k]) @
                     [GenerateImage k prompt (model_ident m) orient, EditText Failed] \<and>
           length (filter is_photo trace) = k \<and> attempts trace = [0..<Suc k] \<and>
           Delete \<notin> set trace \<and> last trace = EditText Failed) \<and>
        ((\<forall>j<nat n. delivered env prompt m orient j) \<longrightarrow>
           trace = generating # concat (map (iteration env prompt m orient n) [0..<nat n]) @ [Delete] \<and>
           length (filter is_photo trace) = nat n \<and> attempts trace = [0..<nat n] \<and>
           last trace = Delete))"
proof -
  let ?trace = "generate_image_direct env (Some ts) key"
  let ?g = "ReplyText (Generating n orient (model_name m) prompt)"
  let ?its = "\<lambda>k. concat (map (iteration env prompt m orient n) [0..<k])"
  have tr: "?trace = ?g # generate_loop env prompt m orient n 0 (nat n)"
    using reliable args reg by (simp add: generate_image_direct_def)
  have a: "?trace = ?g # ?its k @ [GenerateImage k prompt (model_ident m) orient, EditText Failed] \<and>
           length (filter is_photo ?trace) = k \<and> attempts ?trace = [0..<Suc k] \<and>
           Delete \<notin> set ?trace \<and> last ?trace = EditText Failed"
    if h: "k < nat n \<and> (\<forall>j<k. delivered env prompt m orient j) \<and> \<not> delivered env prompt m orient k"
  proof -
    have "generate_loop env prompt m orient n 0 (nat n) =
          concat (map (iteration env prompt m orient n) [0..<0 + k]) @
          [GenerateImage (0 + k) prompt (model_ident m) orient, EditText Failed]"
      using h by (intro generate_loop_fail[OF reliable]) simp_all
    then have eq: "?trace = ?g # ?its k @ [GenerateImage k prompt (model_ident m) orient, EditText Failed]"
      using tr by simp
    have "length (filter is_photo ?trace) = k"
      unfolding eq using photos_iterations[of env prompt m orient n 0 k] by simp
    moreover have "attempts ?trace = [0..<Suc k]"
      unfolding eq by (simp add: attempts_append attempts_iterations)
    moreover have "Delete \<notin> set ?trace"
      unfolding eq using delete_iterations[of env prompt m orient n "[0..<k]"] by simp
    moreover have "last ?trace = EditText Failed"
      unfolding eq by simp
    ultimately show ?thesis using eq by simp
  qed
  have b: "?trace = ?g # ?its (nat n) @ [Delete] \<and>
           length (filter is_photo ?trace) = nat n \<and> attempts ?trace = [0..<nat n] \<and>
           last ?trace = Delete"
    if h: "\<forall>j<nat n. delivered env prompt m orient j"
  proof -
    have "generate_loop env prompt m orient n 0 (nat n) =
          concat (map (iteration env prompt m orient n) [0..<0 + nat n]) @ [Delete]"
      using h by (intro generate_loop_all[OF reliable]) simp
    then have eq: "?trace = ?g # ?its (nat n) @ [Delete]"
      using tr by simp
    have "length (filter is_photo ?trace) = nat n"
      unfolding eq using photos_iterations[of env prompt m orient n 0 "nat n"] by simp
    moreover have "attempts ?trace = [0..<nat n]"
      unfolding eq by (simp add: attempts_append attempts_iterations)
    moreover have "last ?trace = Delete"
      unfolding eq by simp
    ultimately show ?thesis using eq by simp
  qed
  from a b show ?thesis unfolding Let_def by blast
qed

text \<open>Three images requested, the second generation fails: one photo, no third call.\<close>

theorem generate_image_direct_loop_witness:
  "generate_image_direct second_fails (Some [''-n'', ''3'', ''a'', ''fox'']) ''flux'' =
     [ReplyText (Generating 3 ''portrait'' ''FLUX Dev'' ''a fox''),
      GenerateImage 0 ''a fox'' ''runware:101@1'' ''portrait'',
      ReplyPhoto ''aW1n'' (Some (1, 3)),
      GenerateImage 1 ''a fox'' ''runware:101@1'' ''portrait'',
      EditText Failed] \<and>
   length (filter is_photo
     (generate_image_direct second_fails (Some [''-n'', ''3'', ''a'', ''fox'']) ''flux'')) = 1 \<and>
   attempts (generate_image_direct second_fails (Some [''-n'', ''3'', ''a'', ''fox'']) ''flux'') = [0, 1]"
proof -
  let ?m = "\<lparr>model_ident = ''runware:101@1'', model_name = ''FLUX Dev'', supports_reference = False\<rparr>"
  have reliable: "\<forall>e. \<not> raises second_fails e" by (simp add: second_fails_def)
  have args: "[''-n'', ''3'', ''a'', ''fox''] \<noteq> []"
    "parse_command_args [''-n'', ''3'', ''a'', ''fox''] = Inr (''portrait'', 3, False, ''a fox'')"
    "''a fox'' \<noteq> []"
    by code_simp+
  have reg: "map_of MODELS ''flux'' = Some ?m" by (simp add: MODELS_def)
  have d0: "delivered second_fails ''a fox'' ?m ''portrait'' 0" by code_simp
  have d1: "\<not> delivered second_fails ''a fox'' ?m ''portrait'' 1" by code_simp
  have h: "1 < nat 3 \<and> (\<forall>j<1. delivered second_fails ''a fox'' ?m ''portrait'' j) \<and>
           \<not> delivered second_fails ''a fox'' ?m ''portrait'' 1"
    using d0 d1 by simp
  have val: "generate_image_direct second_fails (Some [''-n'', ''3'', ''a'', ''fox'']) ''flux'' =
     [ReplyText (Generating 3 ''portrait'' ''FLUX Dev'' ''a fox''),
      GenerateImage 0 ''a fox'' ''runware:101@1'' ''portrait'',
      ReplyPhoto ''aW1n'' (Some (1, 3)),
      GenerateImage 1 ''a fox'' ''runware:101@1'' ''portrait'',
      EditText Failed]"
    by code_simp
  note T = generate_image_direct_loop[OF reliable args reg, of 1, unfolded Let_def,
      THEN conjunct1, THEN mp, OF h]
  have "length (filter is_photo
     (generate_image_direct second_fails (Some [''-n'', ''3'', ''a'', ''fox'']) ''flux'')) = 1"
    by (rule T[THEN conjunct2, THEN conjunct1])
  moreover have "attempts (generate_image_direct second_fails (Some [''-n'', ''3'', ''a'', ''fox'']) ''flux'') =
      [0..<Suc 1]"
    by (rule T[THEN conjunct2, THEN conjunct2, THEN conjunct1])
  moreover have "[0..<Suc 1] = [0, 1::nat]" by (simp add: upt_rec)
  ultimately show ?thesis using val by simp
qed

section \<open>Validation\<close>

lemma reply_text_cases:
  "reply_text env msg = [ReplyText msg] \<or> reply_text env msg = [ReplyText msg, Raise TelegramError]"
  by (simp add: reply_text_def)

text \<open>
  Claim C9. With no argument tokens, or with arguments that parse to an empty prompt,
  the handler sends one usage hint and returns (or the sending raises): no progress
  message, no photo, no call of the generation client.
\<close>

theorem generate_image_direct_rejects:
  "args = None \<or> args = Some [] \<or>
     (\<exists>ts ori n mx. args = Some ts \<and> parse_command_args ts = Inr (ori, n, mx, [])) \<Longrightarrow>
   (\<exists>hint. (hint = PromptHint key \<or> hint = OptionsHint key) \<and>
      (generate_image_direct env args key = [ReplyText hint] \<or>
       generate_image_direct env args key = [ReplyText hint, Raise TelegramError])) \<and>
   attempts (generate_image_direct env args key) = [] \<and>
   length (filter is_photo (generate_image_direct env args key)) = 0"
proof -
  assume h: "args = None \<or> args = Some [] \<or>
     (\<exists>ts ori n mx. args = Some ts \<and> parse_command_args ts = Inr (ori, n, mx, []))"
  have "generate_image_direct env args key = reply_text env (PromptHint key) \<or>
        generate_image_direct env args key = reply_text env (OptionsHint key)"
    using h by (auto simp: generate_image_direct_def)
  then obtain hint where hint: "hint = PromptHint key \<or> hint = OptionsHint key"
    and tr: "generate_image_direct env args key = reply_text env hint" by blast
  from tr reply_text_cases[of env hint]
  have c: "generate_image_direct env args key = [ReplyText hint] \<or>
      generate_image_direct env args key = [ReplyText hint, Raise TelegramError]" by simp
  then have "attempts (generate_image_direct env args key) = []"
    "length (filter is_photo (generate_image_direct env args key)) = 0"
    by auto
  with hint c show ?thesis by blast
qed

text \<open>\<open>-l -s\<close> leaves an empty prompt; no arguments at all.\<close>

theorem generate_image_direct_rejects_witness:
  "generate_image_direct second_fails (Some [''-l'', ''-s'']) ''flux'' = [ReplyText (OptionsHint ''flux'')] \<and>
   generate_image_direct second_fails None ''flux'' = [ReplyText (PromptHint ''flux'')] \<and>
   attempts (generate_image_direct second_fails (Some [''-l'', ''-s'']) ''flux'') = []"
proof -
  have p: "parse_command_args [''-l'', ''-s''] = Inr (''square'', 1, False, [])" by code_simp
  have h: "Some [''-l'', ''-s''] = None \<or> Some [''-l'', ''-s''] = Some [] \<or>
     (\<exists>ts ori n mx. Some [''-l'', ''-s''] = Some ts \<and> parse_command_args ts = Inr (ori, n, mx, []))"
    using p by blast
  have vals: "generate_image_direct second_fails (Some [''-l'', ''-s'']) ''flux'' = [ReplyText (OptionsHint ''flux'')]"
    "generate_image_direct second_fails None ''flux'' = [ReplyText (PromptHint ''flux'')]"
    by code_simp+
  from generate_image_direct_rejects[OF h, of "''flux''" second_fails]
  have "attempts (generate_image_direct second_fails (Some [''-l'', ''-s'']) ''flux'') = []"
    by blast
  with vals show ?thesis by simp
qed

end
